theory Spec2Isabelle
  imports Complex_Main "HOL-Library.Multiset"
begin

section \<open>Python dictionaries\<close>

text \<open>
  A Python \<open>dict\<close> iterates in insertion order, and \<open>show_subgraphs\<close> walks
  \<open>self.nodes.values()\<close>, so a dictionary is an association list in insertion order:
  \<open>update\<close> on a key that is present replaces the value where it stands, on a new key
  it appends the pair at the end.
\<close>

type_synonym ('k, 'v) dict = "('k \<times> 'v) list"

definition keys :: "('k, 'v) dict \<Rightarrow> 'k list" where
  "keys d = map fst d"

definition values_of :: "('k, 'v) dict \<Rightarrow> 'v list" where
  "values_of d = map snd d"

fun get :: "('k, 'v) dict \<Rightarrow> 'k \<Rightarrow> 'v \<Rightarrow> 'v" where
  "get [] k dflt = dflt"
| "get ((k', v) # d) k dflt = (if k' = k then v else get d k dflt)"

fun update :: "'k \<Rightarrow> 'v \<Rightarrow> ('k, 'v) dict \<Rightarrow> ('k, 'v) dict" where
  "update k v [] = [(k, v)]"
| "update k v ((k', v') # d) = (if k' = k then (k, v) # d else (k', v') # update k v d)"

section \<open>Node, Edge, Graph\<close>

text \<open>
  \<open>class Node\<close> has the one field \<open>name\<close>; its subclasses (Artist, Release, Studio)
  add fields, which is the extension slot of the record. \<open>class Edge\<close> has four fields
  (the field \<open>end\<close> is \<open>end_name\<close> here); its subclasses only fix \<open>meaning\<close>.
\<close>

record 'a node =
  name :: 'a

record 'a edge =
  start :: 'a
  end_name :: 'a
  meaning :: string
  weight :: real

definition Edge :: "'a \<Rightarrow> 'a \<Rightarrow> 'a edge" where
  "Edge s e = \<lparr>start = s, end_name = e, meaning = ''EXAMPLE'', weight = 1\<rparr>"

definition Node :: "'a \<Rightarrow> 'a node" where
  "Node n = \<lparr>name = n\<rparr>"

record ('a, 'm) graph =
  nodes :: "('a, ('a, 'm) node_scheme) dict"
  edges :: "('a, 'a edge list) dict"
  num_nodes :: int
  num_edges :: int

text \<open>
  \<open>add_node\<close> and \<open>add_edge\<close> mutate \<open>self\<close>; here they return the new graph. The
  warning written to the logger on a rejected insert is no part of the graph and is not
  modelled. Neither method has a \<open>raise\<close>.
\<close>

definition add_node :: "('a, 'm) graph \<Rightarrow> ('a, 'm) node_scheme \<Rightarrow> bool \<Rightarrow> ('a, 'm) graph" where
  "add_node G node allow_update =
     (if name node \<in> set (keys (nodes G)) \<and> \<not> allow_update then G
      else G\<lparr>nodes := update (name node) node (nodes G),
             num_nodes := num_nodes G + 1\<rparr>)"

definition add_edge :: "('a, 'm) graph \<Rightarrow> 'a edge \<Rightarrow> ('a, 'm) graph" where
  "add_edge G edge =
     (let all_nodes = keys (nodes G) in
      if start edge \<notin> set all_nodes then G
      else if end_name edge \<notin> set all_nodes then G
      else
        (let curr_edges = get (edges G) (start edge) [];
             curr_edges = curr_edges @ [edge]
         in G\<lparr>edges := update (start edge) curr_edges (edges G),
               num_edges := num_edges G + 1\<rparr>))"

definition empty_graph :: "('a, 'm) graph" where
  "empty_graph = \<lparr>nodes = [], edges = [], num_nodes = 0, num_edges = 0\<rparr>"

text \<open>\<open>Graph.__init__\<close>: the two \<open>for\<close> loops over the initial nodes and edges.\<close>

definition Graph :: "('a, 'm) node_scheme list \<Rightarrow> 'a edge list \<Rightarrow> ('a, 'm) graph" where
  "Graph ns es = foldl add_edge (foldl (\<lambda>G n. add_node G n False) empty_graph ns) es"

definition get_all_nodes :: "('a, 'm) graph \<Rightarrow> ('a, 'm) node_scheme list" where
  "get_all_nodes G = values_of (nodes G)"

definition get_all_edges :: "('a, 'm) graph \<Rightarrow> 'a edge list" where
  "get_all_edges G = foldl (\<lambda>ans v. ans @ v) [] (values_of (edges G))"

text \<open>The graphs a program can hold: built by the constructor, then grown by the two methods.\<close>

inductive constructed :: "('a, 'm) graph \<Rightarrow> bool" where
  init: "constructed (Graph ns es)"
| node: "constructed G \<Longrightarrow> constructed (add_node G n allow_update)"
| edge: "constructed G \<Longrightarrow> constructed (add_edge G e)"

section \<open>path_exists\<close>

text \<open>
  \<open>path_exists\<close> returns a list or \<open>False\<close>; \<open>show_subgraphs\<close> tests that value with
  \<open>if\<close>, where an empty list would count as false too.
\<close>

datatype 'a pyval = PyFalse | PyList "'a list"

fun truthy :: "'a pyval \<Rightarrow> bool" where
  "truthy PyFalse = False"
| "truthy (PyList xs) = (xs \<noteq> [])"

datatype error = IndexError

text \<open>
  A run of a method either does not return (\<open>None\<close>), raises (\<open>Some (Inl e)\<close>) or
  returns a value (\<open>Some (Inr v)\<close>).
\<close>

type_synonym 'r run = "(error + 'r) option"

definition returns :: "'r \<Rightarrow> 'r run" where
  "returns v = Some (Inr v)"

definition raises :: "error \<Rightarrow> 'r run" where
  "raises e = Some (Inl e)"

definition run_bind :: "'r run \<Rightarrow> ('r \<Rightarrow> 's run) \<Rightarrow> 's run" where
  "run_bind m f = (case m of None \<Rightarrow> None | Some (Inl e) \<Rightarrow> Some (Inl e) | Some (Inr v) \<Rightarrow> f v)"

text \<open>
  The \<open>for n in options\<close> loop of one iteration, on the popped path \<open>curr_path\<close> and the rest of
  the queue: \<open>Inl\<close> is the \<open>return curr_path\<close> after \<open>curr.reverse()\<close>, \<open>Inr\<close> the queue the
  loop leaves behind when it runs to its end.
\<close>

fun for_options :: "'a \<Rightarrow> 'a list \<Rightarrow> 'a list \<Rightarrow> 'a list list \<Rightarrow> 'a list + 'a list list" where
  "for_options endn curr_path [] queue = Inr queue"
| "for_options endn curr_path (n # options) queue =
     (if n = endn then Inl (rev curr_path)
      else if n \<notin> set curr_path then for_options endn curr_path options (queue @ [n # curr_path])
      else for_options endn curr_path options queue)"

text \<open>
  The \<open>while len(queue) > 0\<close> loop. \<open>curr[0]\<close> raises IndexError on an empty path.
  The loop is a partial function: \<open>None\<close> is a run that never leaves the loop.
\<close>

partial_function (option) while_queue ::
  "('a, 'm) graph \<Rightarrow> 'a \<Rightarrow> 'a list list \<Rightarrow> 'a pyval run" where
  "while_queue G endn queue =
     (case queue of
        [] \<Rightarrow> Some (Inr PyFalse)
      | curr_path # queue' \<Rightarrow>
          (case curr_path of
             [] \<Rightarrow> Some (Inl IndexError)
           | c # _ \<Rightarrow>
               (case for_options endn curr_path (map end_name (get (edges G) c [])) queue' of
                  Inl path \<Rightarrow> Some (Inr (PyList path))
                | Inr queue'' \<Rightarrow> while_queue G endn queue'')))"

declare while_queue.simps [code]

definition path_exists :: "('a, 'm) graph \<Rightarrow> 'a \<Rightarrow> 'a \<Rightarrow> 'a pyval run" where
  "path_exists G start_name endn = while_queue G endn [[start_name]]"

section \<open>show_subgraphs\<close>

text \<open>The innermost loop, \<open>for n2 in g\<close>: the value of \<open>found_group\<close> when it ends.\<close>

fun for_n2 :: "('a, 'm) graph \<Rightarrow> 'a \<Rightarrow> 'a list \<Rightarrow> bool run" where
  "for_n2 G n1 [] = returns False"
| "for_n2 G n1 (n2 # g) =
     run_bind (path_exists G n1 n2) (\<lambda>r.
       if truthy r then returns True
       else run_bind (path_exists G n2 n1) (\<lambda>r'.
         if truthy r' then returns True
         else for_n2 G n1 g))"

text \<open>
  The loop \<open>for g in ans\<close>: \<open>found_group\<close> and the list \<open>ans\<close> when it ends; the group
  that matched has got the name appended.
\<close>

fun for_g :: "('a, 'm) graph \<Rightarrow> 'a \<Rightarrow> 'a list list \<Rightarrow> (bool \<times> 'a list list) run" where
  "for_g G n1 [] = returns (False, [])"
| "for_g G n1 (g # ans) =
     run_bind (for_n2 G n1 g) (\<lambda>found_group.
       if found_group then returns (True, (g @ [n1]) # ans)
       else run_bind (for_g G n1 ans) (\<lambda>(found_group', ans').
         returns (found_group', g # ans')))"

fun for_n1 :: "('a, 'm) graph \<Rightarrow> ('a, 'm) node_scheme list \<Rightarrow> 'a list list \<Rightarrow> 'a list list run" where
  "for_n1 G [] ans = returns ans"
| "for_n1 G (n1 # all_nodes) ans =
     run_bind (for_g G (name n1) ans) (\<lambda>(found_group, ans').
       for_n1 G all_nodes (if found_group then ans' else ans' @ [[name n1]]))"

definition show_subgraphs :: "('a, 'm) graph \<Rightarrow> 'a list list run" where
  "show_subgraphs G = for_n1 G (get_all_nodes G) []"

text \<open>
  The invariant of the claim on stored edges: both ends of every edge in every bucket
  are keys of \<open>nodes\<close>.
\<close>

definition edges_closed :: "('a, 'm) graph \<Rightarrow> bool" where
  "edges_closed G =
     (\<forall>(k, bucket) \<in> set (edges G). \<forall>e \<in> set bucket.
        start e \<in> set (keys (nodes G)) \<and> end_name e \<in> set (keys (nodes G)))"

text \<open>
  For the termination of the loop: the names that end some stored edge, and how many of
  them a partial path has not visited yet.
\<close>

definition all_ends :: "('a, 'm) graph \<Rightarrow> 'a list" where
  "all_ends G = concat (map (\<lambda>(k, bucket). map end_name bucket) (edges G))"

definition unvisited :: "('a, 'm) graph \<Rightarrow> 'a list \<Rightarrow> nat" where
  "unvisited G p = card (set (all_ends G) - set p)"

definition queue_rel :: "('a, 'm) graph \<Rightarrow> ('a list list \<times> 'a list list) set" where
  "queue_rel G = inv_image (mult less_than) (\<lambda>queue. mset (map (unvisited G) queue))"

text \<open>
  The worklists the loop of \<open>path_exists G start_name endn\<close> goes through: the first one,
  and the one each iteration that does not return leaves for the next.
\<close>

inductive visited_queue :: "('a, 'm) graph \<Rightarrow> 'a \<Rightarrow> 'a \<Rightarrow> 'a list list \<Rightarrow> bool"
  for G :: "('a, 'm) graph" and start_name :: 'a and endn :: 'a where
  initial: "visited_queue G start_name endn [[start_name]]"
| iteration: "visited_queue G start_name endn ((c # cs) # rest) \<Longrightarrow>
         for_options endn (c # cs) (map end_name (get (edges G) c [])) rest = Inr queue'' \<Longrightarrow>
         visited_queue G start_name endn queue''"

text \<open>A stored edge from \<open>u\<close> to \<open>v\<close>: some edge in some bucket has that start and that end.\<close>

definition stored_edge :: "('a, 'm) graph \<Rightarrow> 'a \<Rightarrow> 'a \<Rightarrow> bool" where
  "stored_edge G u v = (\<exists>e \<in> set (get_all_edges G). start e = u \<and> end_name e = v)"

text \<open>Every bucket holds only edges that start at its key.\<close>

definition buckets_keyed :: "('a, 'm) graph \<Rightarrow> bool" where
  "buckets_keyed G = (\<forall>(k, bucket) \<in> set (edges G). \<forall>e \<in> set bucket. start e = k)"

text \<open>The first sample graph of the source, \<open>G1\<close>, and the second, \<open>G2\<close>.\<close>

definition G1 :: "(int, unit) graph" where
  "G1 = Graph (map Node [0 .. 6])
     [Edge 0 1, Edge 1 2, Edge 2 3, Edge 3 0, Edge 4 5, Edge 6 4]"

definition G2 :: "(int, unit) graph" where
  "G2 = Graph (map Node [0 .. 9])
     [Edge 9 1, Edge 1 2, Edge 5 9, Edge 4 0, Edge 6 4, Edge 7 3]"

text \<open>What the loop keeps true of every queued path, read from its front.\<close>

definition trail :: "('a, 'm) graph \<Rightarrow> 'a \<Rightarrow> 'a list \<Rightarrow> bool" where
  "trail G s p = (p \<noteq> [] \<and> last p = s \<and> distinct p \<and>
     successively (\<lambda>x y. x \<in> set (map end_name (get (edges G) y []))) p)"

text \<open>The keys of \<open>nodes\<close> are distinct, and every node is stored under its own name.\<close>

definition nodes_keyed :: "('a, 'm) graph \<Rightarrow> bool" where
  "nodes_keyed G = (distinct (keys (nodes G)) \<and> (\<forall>(k, v) \<in> set (nodes G). name v = k))"

text \<open>Two graphs of three nodes, for the grouping of \<open>show_subgraphs\<close>.\<close>

definition G_fan_in :: "(int, unit) graph" where
  "G_fan_in = Graph (map Node [0 .. 2]) [Edge 0 2, Edge 1 2]"

definition G_fan_out :: "(int, unit) graph" where
  "G_fan_out = Graph (map Node [0 .. 2]) [Edge 2 0, Edge 2 1]"

section \<open>Dictionary and mutation lemmas\<close>

lemma keys_update: "set (keys (update k v d)) = insert k (set (keys d))"
  by (induction d) (force simp: keys_def)+

lemma length_update: "k \<in> set (keys d) \<Longrightarrow> length (update k v d) = length d"
  by (induction d) (force simp: keys_def)+

lemma keys_update_present: "k \<in> set (keys d) \<Longrightarrow> keys (update k v d) = keys d"
  by (induction d) (force simp: keys_def)+

lemma get_update: "get (update k v d) k' dflt = (if k' = k then v else get d k' dflt)"
  by (induction d) auto

lemma set_update: "set (update k v d) \<subseteq> insert (k, v) (set d)"
  by (induction d) (auto split: if_splits)

lemma get_in_dict: "get d k dflt = dflt \<or> (k, get d k dflt) \<in> set d"
  by (induction d) (auto split: if_splits)

lemma foldl_preserves:
  assumes "\<And>s x. P s \<Longrightarrow> P (f s x)" and "P s"
  shows "P (foldl f s xs)"
  using assms(2) by (induction xs arbitrary: s) (simp_all add: assms(1))

lemma name_add_node: "name n \<in> set (keys (nodes (add_node G n u)))"
  by (simp add: add_node_def keys_update)

lemma keys_add_node: "set (keys (nodes G)) \<subseteq> set (keys (nodes (add_node G n u)))"
  by (auto simp: add_node_def keys_update)

lemma edges_closed_empty: "edges_closed empty_graph"
  by (simp add: edges_closed_def empty_graph_def)

lemma edges_closed_add_node: "edges_closed G \<Longrightarrow> edges_closed (add_node G n u)"
  unfolding edges_closed_def add_node_def by (auto simp: keys_update)

lemma nodes_add_edge: "nodes (add_edge G e) = nodes G"
  by (simp add: add_edge_def Let_def)

lemma edges_add_edge:
  "edges (add_edge G e) =
     (if start e \<in> set (keys (nodes G)) \<and> end_name e \<in> set (keys (nodes G))
      then update (start e) (get (edges G) (start e) [] @ [e]) (edges G) else edges G)"
  by (simp add: add_edge_def Let_def)

lemma bucket_add_edge:
  assumes "(k, b) \<in> set (edges (add_edge G e))" and "e' \<in> set b"
  shows "(start e \<in> set (keys (nodes G)) \<and> end_name e \<in> set (keys (nodes G)) \<and> k = start e \<and> e' = e)
       \<or> (\<exists>b'. (k, b') \<in> set (edges G) \<and> e' \<in> set b')"
proof (cases "start e \<in> set (keys (nodes G)) \<and> end_name e \<in> set (keys (nodes G))")
  case False
  then show ?thesis using assms by (auto simp: edges_add_edge)
next
  case True
  let ?old = "get (edges G) (start e) []"
  from assms(1) True have "(k, b) \<in> set (update (start e) (?old @ [e]) (edges G))"
    by (simp add: edges_add_edge)
  then have "(k, b) = (start e, ?old @ [e]) \<or> (k, b) \<in> set (edges G)"
    using set_update[of "start e" "?old @ [e]" "edges G"] by blast
  then show ?thesis
  proof
    assume new: "(k, b) = (start e, ?old @ [e])"
    then have "e' = e \<or> e' \<in> set ?old" using assms(2) by auto
    then show ?thesis
    proof
      assume "e' = e"
      then show ?thesis using True new by simp
    next
      assume old: "e' \<in> set ?old"
      then have "?old \<noteq> []" by auto
      then have "(start e, ?old) \<in> set (edges G)"
        using get_in_dict[of "edges G" "start e" "[]"] by simp
      then show ?thesis using old new by auto
    qed
  next
    assume "(k, b) \<in> set (edges G)"
    then show ?thesis using assms(2) by auto
  qed
qed

lemma edges_closed_add_edge:
  assumes "edges_closed G"
  shows "edges_closed (add_edge G e)"
  unfolding edges_closed_def
proof (intro ballI, clarify)
  fix k b e'
  assume "(k, b) \<in> set (edges (add_edge G e))" and "e' \<in> set b"
  from bucket_add_edge[OF this] assms
  show "start e' \<in> set (keys (nodes (add_edge G e))) \<and> end_name e' \<in> set (keys (nodes (add_edge G e)))"
    by (auto simp: nodes_add_edge edges_closed_def)
qed

lemma edges_closed_Graph: "edges_closed (Graph ns es)"
  unfolding Graph_def
  by (intro foldl_preserves[where P = edges_closed] edges_closed_add_edge edges_closed_add_node edges_closed_empty)

lemma constructed_edges_closed: "constructed G \<Longrightarrow> edges_closed G"
  by (induction rule: constructed.induct)
     (simp_all add: edges_closed_Graph edges_closed_add_node edges_closed_add_edge)

section \<open>The worklist loop terminates\<close>

lemma for_options_eq:
  "for_options endn p opts queue =
     (if endn \<in> set opts then Inl (rev p)
      else Inr (queue @ map (\<lambda>n. n # p) (filter (\<lambda>n. n \<notin> set p) opts)))"
  by (induction opts arbitrary: queue) auto

lemma get_ends_subset:
  fixes G :: "('a, 'm) graph"
  shows "set (map end_name (get (edges G) c [])) \<subseteq> set (all_ends G)"
proof (cases "get (edges G) c [] = []")
  case True
  then show ?thesis by simp
next
  case False
  then have "(c, get (edges G) c []) \<in> set (edges G)"
    using get_in_dict[of "edges G" c "[]"] by simp
  then show ?thesis
    unfolding all_ends_def by force
qed

lemma unvisited_less:
  assumes "n \<in> set (all_ends G)" and "n \<notin> set p"
  shows "unvisited G (n # p) < unvisited G p"
proof -
  have "set (all_ends G) - set (n # p) \<subset> set (all_ends G) - set p"
    using assms by auto
  then show ?thesis
    unfolding unvisited_def by (intro psubset_card_mono) auto
qed

lemma wf_queue_rel: "wf (queue_rel G)"
  unfolding queue_rel_def by (intro wf_inv_image wf_mult wf_less_than)

lemma queue_rel_step:
  fixes G :: "('a, 'm) graph"
  assumes "for_options endn (c # cs) (map end_name (get (edges G) c [])) rest = Inr queue''"
  shows "(queue'', (c # cs) # rest) \<in> queue_rel G"
proof -
  let ?opts = "map end_name (get (edges G) c [])"
  let ?new = "filter (\<lambda>n. n \<notin> set (c # cs)) ?opts"
  from assms have q: "queue'' = rest @ map (\<lambda>n. n # c # cs) ?new"
    by (simp add: for_options_eq split: if_splits)
  let ?I = "mset (map (unvisited G) rest)"
  let ?K = "mset (map (unvisited G) (map (\<lambda>n. n # c # cs) ?new))"
  let ?J = "{# unvisited G (c # cs) #}"
  have "\<forall>k \<in> set_mset ?K. \<exists>j \<in> set_mset ?J. (k, j) \<in> less_than"
  proof
    fix k assume "k \<in> set_mset ?K"
    then obtain n where n: "n \<in> set ?new" and k: "k = unvisited G (n # c # cs)"
      by auto
    from n have "n \<in> set (all_ends G)" "n \<notin> set (c # cs)"
      using get_ends_subset[of G c] by auto
    then have "k < unvisited G (c # cs)"
      unfolding k by (rule unvisited_less)
    then show "\<exists>j \<in> set_mset ?J. (k, j) \<in> less_than" by simp
  qed
  then have m: "(?I + ?K, ?I + ?J) \<in> mult less_than"
    by (intro one_step_implies_mult) simp_all
  have eq1: "mset (map (unvisited G) queue'') = ?I + ?K"
    unfolding q by (simp only: map_append mset_append)
  have eq2: "mset (map (unvisited G) ((c # cs) # rest)) = ?I + ?J"
    by simp
  show ?thesis
    unfolding queue_rel_def in_inv_image eq1 eq2 by (rule m)
qed

lemma while_queue_Nil: "while_queue G endn [] = returns PyFalse"
  by (subst while_queue.simps) (simp add: returns_def)

lemma while_queue_empty_path: "while_queue G endn ([] # rest) = raises IndexError"
  by (subst while_queue.simps) (simp add: raises_def)

lemma while_queue_Cons:
  "while_queue G endn ((c # cs) # rest) =
     (case for_options endn (c # cs) (map end_name (get (edges G) c [])) rest of
        Inl path \<Rightarrow> returns (PyList path)
      | Inr queue'' \<Rightarrow> while_queue G endn queue'')"
  by (subst while_queue.simps) (simp add: returns_def split: sum.splits)

lemma while_queue_induct [case_names step]:
  fixes G :: "('a, 'm) graph"
  assumes "\<And>queue. (\<And>c cs rest queue''. queue = (c # cs) # rest \<Longrightarrow>
             for_options endn (c # cs) (map end_name (get (edges G) c [])) rest = Inr queue'' \<Longrightarrow>
             P queue'') \<Longrightarrow> P queue"
  shows "P queue"
proof (induction queue rule: wf_induct_rule[OF wf_queue_rel[of G]])
  case (1 queue)
  show ?case
  proof (rule assms)
    fix c cs rest queue''
    assume "queue = (c # cs) # rest"
      and "for_options endn (c # cs) (map end_name (get (edges G) c [])) rest = Inr queue''"
    then have "(queue'', queue) \<in> queue_rel G"
      using queue_rel_step by fastforce
    then show "P queue''" by (rule 1)
  qed
qed

lemma while_queue_terminates: "\<exists>r. while_queue G endn queue = Some r"
proof (induction queue rule: while_queue_induct[where endn = endn and G = G])
  case (step queue)
  show ?case
  proof (cases queue)
    case Nil
    then show ?thesis by (simp add: while_queue_Nil returns_def)
  next
    case (Cons p rest)
    show ?thesis
    proof (cases p)
      case Nil
      then show ?thesis using Cons by (simp add: while_queue_empty_path raises_def)
    next
      case (Cons c cs)
      show ?thesis
      proof (cases "for_options endn (c # cs) (map end_name (get (edges G) c [])) rest")
        case (Inl path)
        then show ?thesis
          using Cons \<open>queue = p # rest\<close> by (simp add: while_queue_Cons returns_def)
      next
        case (Inr queue'')
        then have "\<exists>r. while_queue G endn queue'' = Some r"
          using step Cons \<open>queue = p # rest\<close> by blast
        then show ?thesis
          using Inr Cons \<open>queue = p # rest\<close> by (simp add: while_queue_Cons)
      qed
    qed
  qed
qed

lemma for_options_nonempty:
  assumes "for_options endn p opts queue = Inr queue''" and "[] \<notin> set queue"
  shows "[] \<notin> set queue''"
  using assms by (auto simp: for_options_eq split: if_splits)

lemma while_queue_returns:
  fixes G :: "('a, 'm) graph"
  shows "[] \<notin> set queue \<Longrightarrow> \<exists>v. while_queue G endn queue = returns v"
proof (induction queue rule: while_queue_induct[where endn = endn and G = G])
  case (step queue)
  show ?case
  proof (cases queue)
    case Nil
    then show ?thesis by (auto simp: while_queue_Nil)
  next
    case (Cons p rest)
    with step.prems obtain c cs where p: "p = c # cs" by (cases p) auto
    show ?thesis
    proof (cases "for_options endn (c # cs) (map end_name (get (edges G) c [])) rest")
      case (Inl path)
      then show ?thesis using Cons p by (auto simp: while_queue_Cons)
    next
      case (Inr queue'')
      moreover have "[] \<notin> set rest" using step.prems Cons by simp
      ultimately have "[] \<notin> set queue''" by (rule for_options_nonempty)
      then have "\<exists>v. while_queue G endn queue'' = returns v"
        using step.IH Cons p Inr by blast
      then show ?thesis using Inr Cons p by (simp add: while_queue_Cons)
    qed
  qed
qed

lemma path_exists_returns: "\<exists>v. path_exists G start_name endn = returns v"
  unfolding path_exists_def by (rule while_queue_returns) simp

lemma visited_queue_paths:
  assumes "visited_queue G start_name endn queue"
    and "edges_closed G" and "start_name \<in> set (keys (nodes G))"
  shows "\<forall>p \<in> set queue. distinct p \<and> set p \<subseteq> set (keys (nodes G))"
  using assms
proof (induction rule: visited_queue.induct)
  case initial
  then show ?case by simp
next
  case (iteration c cs rest queue'')
  have ends: "set (map end_name (get (edges G) c [])) \<subseteq> set (keys (nodes G))"
  proof (cases "get (edges G) c [] = []")
    case True then show ?thesis by simp
  next
    case False
    then have "(c, get (edges G) c []) \<in> set (edges G)"
      using get_in_dict[of "edges G" c "[]"] by simp
    then show ?thesis using \<open>edges_closed G\<close> unfolding edges_closed_def by fastforce
  qed
  from iteration.hyps(2) have q: "queue'' = rest @ map (\<lambda>n. n # c # cs)
      (filter (\<lambda>n. n \<notin> set (c # cs)) (map end_name (get (edges G) c [])))"
    by (simp add: for_options_eq split: if_splits)
  have IH: "\<forall>p \<in> set ((c # cs) # rest). distinct p \<and> set p \<subseteq> set (keys (nodes G))"
    using iteration by blast
  show ?case
  proof
    fix p assume "p \<in> set queue''"
    then consider "p \<in> set rest"
      | n where "p = n # c # cs" "n \<notin> set (c # cs)" "n \<in> set (map end_name (get (edges G) c []))"
      unfolding q by auto
    then show "distinct p \<and> set p \<subseteq> set (keys (nodes G))"
    proof cases
      case 1 then show ?thesis using IH by simp
    next
      case 2
      then show ?thesis using IH ends by auto
    qed
  qed
qed

lemma distinct_length_le_card:
  assumes "distinct p" and "set p \<subseteq> S" and "finite S"
  shows "length p \<le> card S"
  using assms by (metis card_mono distinct_card)

section \<open>Lemmas on the returned path\<close>

lemma foldl_append_concat: "foldl (\<lambda>ans v. ans @ v) acc xs = acc @ concat xs"
  by (induction xs arbitrary: acc) simp_all

lemma set_get_all_edges: "set (get_all_edges G) = (\<Union>(k, bucket) \<in> set (edges G). set bucket)"
  by (force simp: get_all_edges_def values_of_def foldl_append_concat)

lemma buckets_keyed_empty: "buckets_keyed empty_graph"
  by (simp add: buckets_keyed_def empty_graph_def)

lemma buckets_keyed_add_node: "buckets_keyed G \<Longrightarrow> buckets_keyed (add_node G n u)"
  unfolding buckets_keyed_def add_node_def by simp

lemma buckets_keyed_add_edge:
  assumes "buckets_keyed G"
  shows "buckets_keyed (add_edge G e)"
  unfolding buckets_keyed_def
proof (intro ballI, clarify)
  fix k b e'
  assume "(k, b) \<in> set (edges (add_edge G e))" and "e' \<in> set b"
  from bucket_add_edge[OF this] assms
  show "start e' = k"
    by (auto simp: buckets_keyed_def)
qed

lemma buckets_keyed_Graph: "buckets_keyed (Graph ns es)"
  unfolding Graph_def
  by (intro foldl_preserves[where P = buckets_keyed] buckets_keyed_add_edge
        buckets_keyed_add_node buckets_keyed_empty)

lemma constructed_buckets_keyed: "constructed G \<Longrightarrow> buckets_keyed G"
  by (induction rule: constructed.induct)
     (simp_all add: buckets_keyed_Graph buckets_keyed_add_node buckets_keyed_add_edge)

lemma bucket_end_stored:
  fixes G :: "('a, 'm) graph"
  assumes "buckets_keyed G" and "v \<in> set (map end_name (get (edges G) u []))"
  shows "stored_edge G u v"
proof -
  from assms(2) obtain e where e: "e \<in> set (get (edges G) u [])" "end_name e = v"
    by auto
  then have "get (edges G) u [] \<noteq> []" by auto
  then have in_d: "(u, get (edges G) u []) \<in> set (edges G)"
    using get_in_dict[of "edges G" u "[]"] by simp
  then have "start e = u"
    using assms(1) e(1) unfolding buckets_keyed_def by fastforce
  moreover have "e \<in> set (get_all_edges G)"
    using in_d e(1) unfolding set_get_all_edges by fastforce
  ultimately show ?thesis
    unfolding stored_edge_def using e(2) by blast
qed

lemma successively_nth:
  "successively P xs \<Longrightarrow> Suc i < length xs \<Longrightarrow> P (xs ! i) (xs ! Suc i)"
proof (induction P xs arbitrary: i rule: successively.induct)
  case (3 P x y xs)
  then show ?case by (cases i) auto
qed simp_all

lemma trail_extend:
  fixes G :: "('a, 'm) graph"
  assumes "trail G s (c # cs)" and "n \<notin> set (c # cs)"
    and "n \<in> set (map end_name (get (edges G) c []))"
  shows "trail G s (n # c # cs)"
  using assms unfolding trail_def by simp

lemma while_queue_trail:
  fixes G :: "('a, 'm) graph"
  assumes "while_queue G endn queue = returns (PyList path)"
    and "\<forall>p \<in> set queue. trail G s p"
  shows "\<exists>p. path = rev p \<and> trail G s p \<and> endn \<in> set (map end_name (get (edges G) (hd p) []))"
  using assms
proof (induction queue rule: while_queue_induct[where endn = endn and G = G])
  case (step queue)
  show ?case
  proof (cases queue)
    case Nil
    then show ?thesis using step.prems(1) by (simp add: while_queue_Nil returns_def)
  next
    case (Cons p rest)
    with step.prems(2) obtain c cs where p: "p = c # cs"
      by (cases p) (auto simp: trail_def)
    let ?opts = "map end_name (get (edges G) c [])"
    show ?thesis
    proof (cases "endn \<in> set ?opts")
      case True
      then have "while_queue G endn queue = returns (PyList (rev (c # cs)))"
        using Cons p by (simp add: while_queue_Cons for_options_eq)
      then have "path = rev (c # cs)" using step.prems(1) by (simp add: returns_def)
      moreover have "trail G s (c # cs)" using step.prems(2) Cons p by simp
      ultimately show ?thesis using True by (intro exI[of _ "c # cs"]) simp
    next
      case False
      let ?q = "rest @ map (\<lambda>n. n # c # cs) (filter (\<lambda>n. n \<notin> set (c # cs)) ?opts)"
      have fo: "for_options endn (c # cs) ?opts rest = Inr ?q"
        using False by (simp add: for_options_eq)
      then have w: "while_queue G endn ?q = returns (PyList path)"
        using step.prems(1) Cons p by (simp add: while_queue_Cons)
      have tr: "\<forall>p' \<in> set ?q. trail G s p'"
      proof
        fix p' assume "p' \<in> set ?q"
        then consider "p' \<in> set rest"
          | n where "p' = n # c # cs" "n \<notin> set (c # cs)" "n \<in> set ?opts"
          by auto
        then show "trail G s p'"
        proof cases
          case 1 then show ?thesis using step.prems(2) Cons by simp
        next
          case 2
          have "trail G s (c # cs)" using step.prems(2) Cons p by simp
          then show ?thesis using 2 trail_extend by metis
        qed
      qed
      show ?thesis using step.IH[OF Cons[unfolded p] fo w tr] .
    qed
  qed
qed

lemma path_exists_trail:
  assumes "path_exists G s endn = returns (PyList path)"
  shows "\<exists>p. path = rev p \<and> trail G s p \<and> endn \<in> set (map end_name (get (edges G) (hd p) []))"
  using assms unfolding path_exists_def
  by (rule while_queue_trail) (simp add: trail_def)

text \<open>A returned list never holds the end name, unless that is the start name.\<close>

lemma while_queue_excludes_end:
  fixes G :: "('a, 'm) graph"
  assumes "while_queue G endn queue = returns (PyList path)"
    and "\<forall>p \<in> set queue. endn \<notin> set p"
  shows "endn \<notin> set path"
  using assms
proof (induction queue rule: while_queue_induct[where endn = endn and G = G])
  case (step queue)
  show ?case
  proof (cases queue)
    case Nil
    then show ?thesis using step.prems(1) by (simp add: while_queue_Nil returns_def)
  next
    case (Cons p rest)
    show ?thesis
    proof (cases p)
      case Nil
      then show ?thesis
        using step.prems(1) Cons by (simp add: while_queue_empty_path raises_def returns_def)
    next
      case (Cons c cs)
      let ?opts = "map end_name (get (edges G) c [])"
      show ?thesis
      proof (cases "endn \<in> set ?opts")
        case True
        then have "while_queue G endn queue = returns (PyList (rev (c # cs)))"
          using Cons \<open>queue = p # rest\<close> by (simp add: while_queue_Cons for_options_eq)
        then have "path = rev (c # cs)" using step.prems(1) by (simp add: returns_def)
        then show ?thesis using step.prems(2) Cons \<open>queue = p # rest\<close> by simp
      next
        case False
        let ?q = "rest @ map (\<lambda>n. n # c # cs) (filter (\<lambda>n. n \<notin> set (c # cs)) ?opts)"
        have fo: "for_options endn (c # cs) ?opts rest = Inr ?q"
          using False by (simp add: for_options_eq)
        then have w: "while_queue G endn ?q = returns (PyList path)"
          using step.prems(1) Cons \<open>queue = p # rest\<close> by (simp add: while_queue_Cons)
        have ex: "\<forall>p' \<in> set ?q. endn \<notin> set p'"
          using step.prems(2) Cons \<open>queue = p # rest\<close> False by auto
        show ?thesis
          using step.IH[OF \<open>queue = p # rest\<close>[unfolded Cons] fo w ex] .
      qed
    qed
  qed
qed

lemma returned_path_excludes_end:
  assumes "path_exists G start_name endn = returns (PyList path)" and "start_name \<noteq> endn"
  shows "endn \<notin> set path"
  using assms unfolding path_exists_def
  by (intro while_queue_excludes_end[where queue = "[[start_name]]"]) auto

section \<open>Lemmas on show_subgraphs\<close>

lemma distinct_keys_update: "distinct (keys d) \<Longrightarrow> distinct (keys (update k v d))"
proof (induction d)
  case Nil
  then show ?case by (simp add: keys_def)
next
  case (Cons kv d)
  obtain k' v' where kv: "kv = (k', v')" by (cases kv)
  have "set (keys (update k v d)) = insert k (set (keys d))" by (rule keys_update)
  then show ?case using Cons unfolding kv by (auto simp: keys_def)
qed

lemma nodes_keyed_empty: "nodes_keyed empty_graph"
  by (simp add: nodes_keyed_def empty_graph_def keys_def)

lemma nodes_keyed_add_node:
  assumes "nodes_keyed G"
  shows "nodes_keyed (add_node G n u)"
proof (cases "name n \<in> set (keys (nodes G)) \<and> \<not> u")
  case True
  then show ?thesis using assms by (simp add: add_node_def)
next
  case False
  then have nd: "nodes (add_node G n u) = update (name n) n (nodes G)"
    by (auto simp: add_node_def)
  have "\<forall>(k, v) \<in> set (update (name n) n (nodes G)). name v = k"
    using set_update[of "name n" n "nodes G"] assms unfolding nodes_keyed_def by blast
  then show ?thesis
    using assms unfolding nodes_keyed_def nd by (simp add: distinct_keys_update)
qed

lemma nodes_keyed_add_edge: "nodes_keyed G \<Longrightarrow> nodes_keyed (add_edge G e)"
  by (simp add: nodes_keyed_def nodes_add_edge)

lemma nodes_keyed_Graph: "nodes_keyed (Graph ns es)"
  unfolding Graph_def
  by (intro foldl_preserves[where P = nodes_keyed] nodes_keyed_add_edge
        nodes_keyed_add_node nodes_keyed_empty)

lemma constructed_nodes_keyed: "constructed G \<Longrightarrow> nodes_keyed G"
  by (induction rule: constructed.induct)
     (simp_all add: nodes_keyed_Graph nodes_keyed_add_node nodes_keyed_add_edge)

lemma names_of_nodes:
  assumes "nodes_keyed G"
  shows "map name (get_all_nodes G) = keys (nodes G)"
proof -
  have "\<forall>kv \<in> set (nodes G). name (snd kv) = fst kv"
    using assms unfolding nodes_keyed_def by auto
  then show ?thesis
    unfolding get_all_nodes_def values_of_def keys_def by simp
qed

lemma run_bind_returns [simp]: "run_bind (returns v) f = f v"
  by (simp add: run_bind_def returns_def)

lemma returns_eq [simp]: "returns a = returns b \<longleftrightarrow> a = b"
  by (simp add: returns_def)

lemma for_n2_returns: "\<exists>b. for_n2 G n1 g = returns b"
proof (induction g)
  case Nil
  then show ?case by auto
next
  case (Cons n2 g)
  obtain r where r: "path_exists G n1 n2 = returns r"
    using path_exists_returns[of G n1 n2] by blast
  obtain r' where r': "path_exists G n2 n1 = returns r'"
    using path_exists_returns[of G n2 n1] by blast
  show ?case using Cons by (auto simp: r r')
qed

lemma for_g_spec:
  "\<exists>found ans'. for_g G n1 ans = returns (found, ans') \<and>
     (found \<longrightarrow> mset (concat ans') = add_mset n1 (mset (concat ans))) \<and>
     (\<not> found \<longrightarrow> ans' = ans) \<and>
     ([] \<notin> set ans \<longrightarrow> [] \<notin> set ans')"
proof (induction ans)
  case Nil
  then show ?case by auto
next
  case (Cons g ans)
  obtain b where b: "for_n2 G n1 g = returns b"
    using for_n2_returns[of G n1 g] by blast
  show ?case
  proof (cases b)
    case True
    then show ?thesis by (auto simp: b)
  next
    case False
    from Cons obtain found ans' where
      IH: "for_g G n1 ans = returns (found, ans')"
        "found \<longrightarrow> mset (concat ans') = add_mset n1 (mset (concat ans))"
        "\<not> found \<longrightarrow> ans' = ans"
        "[] \<notin> set ans \<longrightarrow> [] \<notin> set ans'"
      by blast
    have "for_g G n1 (g # ans) = returns (found, g # ans')"
      using False by (simp add: b IH(1))
    then show ?thesis using IH(2-4) by auto
  qed
qed

lemma for_n1_spec:
  "\<exists>groups. for_n1 G all_nodes ans = returns groups \<and>
     mset (concat groups) = mset (concat ans) + mset (map name all_nodes) \<and>
     ([] \<notin> set ans \<longrightarrow> [] \<notin> set groups)"
proof (induction all_nodes arbitrary: ans)
  case Nil
  then show ?case by auto
next
  case (Cons n1 all_nodes)
  obtain found ans' where
    g: "for_g G (name n1) ans = returns (found, ans')"
      "found \<longrightarrow> mset (concat ans') = add_mset (name n1) (mset (concat ans))"
      "\<not> found \<longrightarrow> ans' = ans"
      "[] \<notin> set ans \<longrightarrow> [] \<notin> set ans'"
    using for_g_spec[of G "name n1" ans] by blast
  let ?next = "if found then ans' else ans' @ [[name n1]]"
  have m: "mset (concat ?next) = add_mset (name n1) (mset (concat ans))"
    using g(2,3) by (cases found) simp_all
  have e: "[] \<notin> set ans \<longrightarrow> [] \<notin> set ?next"
    using g(4) by auto
  from Cons[of ?next] obtain groups where
    IH: "for_n1 G all_nodes ?next = returns groups"
      "mset (concat groups) = mset (concat ?next) + mset (map name all_nodes)"
      "[] \<notin> set ?next \<longrightarrow> [] \<notin> set groups"
    by blast
  have "for_n1 G (n1 # all_nodes) ans = returns groups"
    by (simp add: g(1) IH(1))
  moreover have "mset (concat groups) = mset (concat ans) + mset (map name (n1 # all_nodes))"
    unfolding IH(2) m by simp
  ultimately show ?case using e IH(3) by blast
qed

lemma exactly_one_group:
  "distinct (concat groups) \<Longrightarrow> k \<in> set (concat groups) \<Longrightarrow>
   length (filter (\<lambda>g. k \<in> set g) groups) = 1"
proof (induction groups)
  case Nil
  then show ?case by simp
next
  case (Cons g groups)
  show ?case
  proof (cases "k \<in> set g")
    case True
    then have "\<forall>g' \<in> set groups. k \<notin> set g'" using Cons.prems(1) by auto
    then have "filter (\<lambda>g. k \<in> set g) groups = []" by (simp add: filter_empty_conv)
    then show ?thesis using True by simp
  next
    case False
    then show ?thesis using Cons by auto
  qed
qed

section \<open>Mutation: rejected inserts, the edge invariant, overwrites\<close>

text \<open>
  Claim C5. A rejected mutation changes nothing: \<open>add_node\<close> with a name that is
  already a key and \<open>allow_update = False\<close> returns the graph as it was, and so does
  \<open>add_edge\<close> with a start or an end that is no key; hence adding the same name a second
  time without the flag leaves the whole graph, its counter and its stored node as the
  first call left them. Neither method can raise: the model has no error result for them.
\<close>

theorem rejected_mutation_is_noop:
  "(name n \<in> set (keys (nodes G)) \<longrightarrow> add_node G n False = G) \<and>
   (start e \<notin> set (keys (nodes G)) \<or> end_name e \<notin> set (keys (nodes G)) \<longrightarrow> add_edge G e = G) \<and>
   (name n' = name n \<longrightarrow> add_node (add_node G n u) n' False = add_node G n u)"
proof (intro conjI impI)
  assume "name n' = name n"
  then have "name n' \<in> set (keys (nodes (add_node G n u)))"
    using name_add_node[of n G u] by simp
  then show "add_node (add_node G n u) n' False = add_node G n u"
    by (simp add: add_node_def[of "add_node G n u"])
qed (auto simp: add_node_def add_edge_def Let_def)

theorem rejected_mutation_is_noop_witness:
  "add_node G1 (Node 0) False = G1 \<and> add_edge G1 (Edge 0 7) = G1 \<and> add_edge G1 (Edge 7 0) = G1 \<and>
   add_node (add_node G1 (Node 7) False) (Node 7) False = add_node G1 (Node 7) False"
proof -
  have h1: "name (Node (0::int)) \<in> set (keys (nodes G1))" by code_simp
  have h2: "end_name (Edge (0::int) 7) \<notin> set (keys (nodes G1))" by code_simp
  have h3: "start (Edge (7::int) 0) \<notin> set (keys (nodes G1))" by code_simp
  show ?thesis
    using h1 h2 h3
      rejected_mutation_is_noop[of "Node 0" G1 "Edge 0 7" "Node 7" False]
      rejected_mutation_is_noop[of "Node 0" G1 "Edge 7 0" "Node 7" False]
      rejected_mutation_is_noop[of "Node 7" G1 "Edge 7 0" "Node 7" False]
    by blast
qed

text \<open>
  Claim C6. Every edge stored in a bucket has its start and its end among the keys of
  \<open>nodes\<close>: the constructor establishes this, \<open>add_node\<close> and \<open>add_edge\<close> keep it, and so
  it holds of every graph built from them.
\<close>

theorem stored_edges_have_stored_ends:
  "edges_closed (Graph ns es) \<and>
   (edges_closed G \<longrightarrow> edges_closed (add_node G n allow_update)) \<and>
   (edges_closed G \<longrightarrow> edges_closed (add_edge G e)) \<and>
   (constructed G \<longrightarrow> edges_closed G)"
  by (simp add: edges_closed_Graph edges_closed_add_node edges_closed_add_edge constructed_edges_closed)


theorem stored_edges_have_stored_ends_witness:
  "constructed G1 \<and> edges_closed G1 \<and>
   edges_closed (add_node G1 (Node 3) True) \<and> edges_closed (add_edge G1 (Edge 5 6))"
proof -
  have c: "constructed G1" unfolding G1_def by (rule constructed.init)
  have h: "edges_closed G1"
    using c stored_edges_have_stored_ends[of "[]" "[]" G1 "Node 3" True "Edge 5 6"] by blast
  show ?thesis
    using c h stored_edges_have_stored_ends[of "[]" "[]" G1 "Node 3" True "Edge 5 6"] by blast
qed

text \<open>
  Claim C7. \<open>add_node\<close> with \<open>allow_update = True\<close> and a name that is already a key
  stores the new node under that key, adds one to \<open>num_nodes\<close>, and leaves the keys and the
  size of \<open>nodes\<close>, \<open>edges\<close> and \<open>num_edges\<close> as they were; a counter that was not below
  the number of stored nodes is above it afterwards.
\<close>

theorem update_overwrite_counts_again:
  assumes "name n \<in> set (keys (nodes G))"
  shows "get (nodes (add_node G n True)) (name n) dflt = n \<and>
         num_nodes (add_node G n True) = num_nodes G + 1 \<and>
         length (nodes (add_node G n True)) = length (nodes G) \<and>
         keys (nodes (add_node G n True)) = keys (nodes G) \<and>
         edges (add_node G n True) = edges G \<and>
         num_edges (add_node G n True) = num_edges G \<and>
         (num_nodes G \<ge> int (length (nodes G)) \<longrightarrow>
            num_nodes (add_node G n True) > int (length (nodes (add_node G n True))))"
  using assms
  by (simp add: add_node_def get_update length_update keys_update_present)

theorem update_overwrite_counts_again_witness:
  "name \<lparr>name = 3::int, \<dots> = ''new''\<rparr> \<in> set (keys (nodes (Graph [\<lparr>name = 3, \<dots> = ''old''\<rparr>] []))) \<and>
   get (nodes (add_node (Graph [\<lparr>name = 3, \<dots> = ''old''\<rparr>] []) \<lparr>name = 3::int, \<dots> = ''new''\<rparr> True)) 3
       \<lparr>name = 0, \<dots> = []\<rparr> = \<lparr>name = 3, \<dots> = ''new''\<rparr> \<and>
   num_nodes (add_node (Graph [\<lparr>name = 3, \<dots> = ''old''\<rparr>] []) \<lparr>name = 3::int, \<dots> = ''new''\<rparr> True) = 2 \<and>
   length (nodes (add_node (Graph [\<lparr>name = 3, \<dots> = ''old''\<rparr>] []) \<lparr>name = 3::int, \<dots> = ''new''\<rparr> True)) = 1"
proof -
  let ?G = "Graph [\<lparr>name = 3::int, \<dots> = ''old''\<rparr>] []"
  have g: "?G = \<lparr>nodes = [(3, \<lparr>name = 3, \<dots> = ''old''\<rparr>)], edges = [], num_nodes = 1, num_edges = 0\<rparr>"
    by (simp add: Graph_def add_node_def empty_graph_def keys_def)
  have h: "name \<lparr>name = 3::int, \<dots> = ''new''\<rparr> \<in> set (keys (nodes ?G))"
    by (simp add: g keys_def)
  show ?thesis
    using h update_overwrite_counts_again[OF h, of "\<lparr>name = 0, \<dots> = []\<rparr>"]
    by (simp add: g)
qed

section \<open>path_exists: termination and the returned path\<close>

text \<open>
  Claim C8. \<open>path_exists\<close> returns, for every graph and every two names: the run of the
  worklist loop is never the run that stays in the loop, and it does not raise. The reason
  is the cycle guard: a name is only put in front of a partial path it does not occur in,
  so on a graph built by the constructor and the two methods, with a stored start name,
  every partial path of every worklist the loop goes through is free of repetitions and
  no longer than the number of distinct node names.
\<close>

theorem path_exists_terminates:
  "(\<exists>v. path_exists G start_name endn = returns v) \<and>
   (constructed G \<and> start_name \<in> set (keys (nodes G)) \<longrightarrow>
      (\<forall>queue p. visited_queue G start_name endn queue \<and> p \<in> set queue \<longrightarrow>
         distinct p \<and> length p \<le> card (set (keys (nodes G)))))"
proof (intro conjI impI allI)
  show "\<exists>v. path_exists G start_name endn = returns v" by (rule path_exists_returns)
next
  fix queue p
  assume a: "constructed G \<and> start_name \<in> set (keys (nodes G))"
    and b: "visited_queue G start_name endn queue \<and> p \<in> set queue"
  from a have "edges_closed G" by (simp add: constructed_edges_closed)
  with a b have "distinct p \<and> set p \<subseteq> set (keys (nodes G))"
    using visited_queue_paths[of G start_name endn queue] by blast
  then show "distinct p" and "length p \<le> card (set (keys (nodes G)))"
    by (simp_all add: distinct_length_le_card)
qed

theorem path_exists_terminates_witness:
  "constructed G1 \<and> 0 \<in> set (keys (nodes G1)) \<and> visited_queue G1 0 3 [[1, 0]] \<and>
   (\<exists>v. path_exists G1 0 3 = returns v) \<and>
   distinct [1, 0 :: int] \<and> length [1, 0 :: int] \<le> card (set (keys (nodes G1)))"
proof -
  have c: "constructed G1" unfolding G1_def by (rule constructed.init)
  have k: "0 \<in> set (keys (nodes G1))" by code_simp
  have v: "visited_queue G1 0 3 [[1, 0]]"
    by (rule visited_queue.iteration[OF visited_queue.initial]) code_simp
  have m: "[1, 0] \<in> set [[1, 0 :: int]]" by simp
  show ?thesis
    using c k v m path_exists_terminates[of G1 0 3] by blast
qed

text \<open>
  Claim C10. On a graph built by the constructor and the two methods, a list returned by
  \<open>path_exists\<close> is not empty, begins with the start name, has no name twice, has a
  stored edge from each of its elements to the next, and has a stored edge from its last
  element to the end name.
\<close>

theorem returned_path_is_edge_connected:
  assumes "constructed G" and "path_exists G start_name endn = returns (PyList p)"
  shows "p \<noteq> [] \<and> hd p = start_name \<and> distinct p \<and>
         (\<forall>i. Suc i < length p \<longrightarrow> stored_edge G (p ! i) (p ! Suc i)) \<and>
         stored_edge G (last p) endn"
proof -
  from path_exists_trail[OF assms(2)] obtain r where
    r: "p = rev r" "trail G start_name r" "endn \<in> set (map end_name (get (edges G) (hd r) []))"
    by blast
  have keyed: "buckets_keyed G" using assms(1) by (rule constructed_buckets_keyed)
  from r(2) have ne: "r \<noteq> []" and la: "last r = start_name" and di: "distinct r"
    and su: "successively (\<lambda>x y. x \<in> set (map end_name (get (edges G) y []))) r"
    by (simp_all add: trail_def)
  have "successively (\<lambda>x y. y \<in> set (map end_name (get (edges G) x []))) p"
    unfolding r(1) using su by simp
  then have "successively (stored_edge G) p"
    by (rule successively_mono) (rule bucket_end_stored[OF keyed])
  then have "\<forall>i. Suc i < length p \<longrightarrow> stored_edge G (p ! i) (p ! Suc i)"
    using successively_nth by blast
  moreover have "stored_edge G (last p) endn"
    using bucket_end_stored[OF keyed r(3)] ne by (simp add: r(1) last_rev)
  moreover have "p \<noteq> []" "hd p = start_name" "distinct p"
    using ne la di by (simp_all add: r(1) hd_rev)
  ultimately show ?thesis by blast
qed

theorem returned_path_is_edge_connected_witness:
  "constructed G1 \<and> path_exists G1 0 3 = returns (PyList [0, 1, 2]) \<and>
   hd [0, 1, 2 :: int] = 0 \<and> distinct [0, 1, 2 :: int] \<and>
   stored_edge G1 0 1 \<and> stored_edge G1 1 2 \<and> stored_edge G1 2 3"
proof -
  have c: "constructed G1" unfolding G1_def by (rule constructed.init)
  have v: "path_exists G1 0 3 = returns (PyList [0, 1, 2])" by code_simp
  note t = returned_path_is_edge_connected[OF c v]
  have a: "\<And>i. Suc i < 3 \<Longrightarrow> stored_edge G1 ([0, 1, 2] ! i) ([0, 1, 2] ! Suc i)"
    using t by simp
  have "stored_edge G1 0 1" using a[of 0] by simp
  moreover have "stored_edge G1 1 2" using a[of 1] by simp
  moreover have "stored_edge G1 2 3" using t by simp
  ultimately show ?thesis using c v by simp
qed

text \<open>
  Claim C9. \<open>path_exists a a\<close> has no empty path to fall back on: for a name with no
  outgoing edge (an empty or missing bucket) it returns \<open>False\<close>, not the list \<open>[a]\<close>;
  and whenever it does return a list, the bucket of the list's last element holds an edge
  that ends at \<open>a\<close>.
\<close>

theorem no_implicit_self_path:
  fixes G :: "('a, 'm) graph"
  shows "(get (edges G) a [] = [] \<longrightarrow> path_exists G a a = returns PyFalse) \<and>
         (\<forall>p. path_exists G a a = returns (PyList p) \<longrightarrow>
            p \<noteq> [] \<and> a \<in> set (map end_name (get (edges G) (last p) [])))"
proof (intro conjI impI allI)
  assume "get (edges G) a [] = []"
  then show "path_exists G a a = returns PyFalse"
    by (simp add: path_exists_def while_queue_Cons while_queue_Nil)
next
  fix p
  assume "path_exists G a a = returns (PyList p)"
  from path_exists_trail[OF this] obtain r where
    r: "p = rev r" "trail G a r" "a \<in> set (map end_name (get (edges G) (hd r) []))"
    by blast
  from r(2) have ne: "r \<noteq> []" by (simp add: trail_def)
  show "p \<noteq> []" using ne r(1) by simp
  show "a \<in> set (map end_name (get (edges G) (last p) []))"
    using r(3) ne by (simp add: r(1) last_rev)
qed

theorem no_implicit_self_path_witness:
  "get (edges G1) 5 [] = [] \<and> path_exists G1 5 5 = returns PyFalse \<and>
   path_exists G1 0 0 = returns (PyList [0, 1, 2, 3]) \<and>
   0 \<in> set (map end_name (get (edges G1) 3 []))"
proof -
  have h: "get (edges G1) 5 [] = []" by code_simp
  have v: "path_exists G1 0 0 = returns (PyList [0, 1, 2, 3])" by code_simp
  have "path_exists G1 5 5 = returns PyFalse"
    using h no_implicit_self_path[of G1 5] by blast
  moreover have "0 \<in> set (map end_name (get (edges G1) (last [0, 1, 2, 3]) []))"
    using v no_implicit_self_path[of G1 0] by blast
  ultimately show ?thesis using h v by simp
qed

text \<open>
  Claim C1, at the sample graph \<open>G1\<close>: \<open>path_exists 0 3\<close> returns \<open>[0, 1, 2]\<close>. The list
  stops at the node before the end name; the end name \<open>3\<close> is not in it.
\<close>

theorem path_exists_fixture_omits_end:
  "path_exists G1 0 3 = returns (PyList [0, 1, 2]) \<and> 3 \<notin> set [0, 1, 2 :: int]"
  by code_simp

section \<open>show_subgraphs: the grouping\<close>

text \<open>
  Claim C3. On a graph built by the constructor and the two methods, \<open>show_subgraphs\<close>
  returns groups, none of them empty, that hold every stored node name and nothing else,
  no name twice: each stored name is in exactly one group.
\<close>

theorem show_subgraphs_partitions_nodes:
  assumes "constructed G"
  shows "\<exists>groups. show_subgraphs G = returns groups \<and>
           [] \<notin> set groups \<and>
           distinct (concat groups) \<and>
           set (concat groups) = set (keys (nodes G)) \<and>
           (\<forall>k \<in> set (keys (nodes G)). length (filter (\<lambda>g. k \<in> set g) groups) = 1)"
proof -
  have nk: "nodes_keyed G" using assms by (rule constructed_nodes_keyed)
  obtain groups where
    g: "for_n1 G (get_all_nodes G) [] = returns groups"
      "mset (concat groups) = mset (map name (get_all_nodes G))"
      "[] \<notin> set groups"
    using for_n1_spec[of G "get_all_nodes G" "[]"] by auto
  have m: "mset (concat groups) = mset (keys (nodes G))"
    using g(2) by (simp add: names_of_nodes[OF nk])
  have d: "distinct (concat groups)"
    using nk mset_eq_imp_distinct_iff[OF m] by (simp add: nodes_keyed_def)
  have s: "set (concat groups) = set (keys (nodes G))"
    using m by (rule mset_eq_setD)
  have "\<forall>k \<in> set (keys (nodes G)). length (filter (\<lambda>g. k \<in> set g) groups) = 1"
    using exactly_one_group[OF d] unfolding s by blast
  then show ?thesis
    using g(1,3) d s unfolding show_subgraphs_def by auto
qed

theorem show_subgraphs_partitions_nodes_witness:
  "constructed G1 \<and> show_subgraphs G1 = returns [[0, 1, 2, 3], [4, 5, 6]] \<and>
   distinct (concat [[0, 1, 2, 3], [4, 5, 6 :: int]]) \<and>
   set (concat [[0, 1, 2, 3], [4, 5, 6]]) = set (keys (nodes G1)) \<and>
   length (filter (\<lambda>g. 5 \<in> set g) [[0, 1, 2, 3], [4, 5, 6 :: int]]) = 1"
proof -
  have c: "constructed G1" unfolding G1_def by (rule constructed.init)
  have v: "show_subgraphs G1 = returns [[0, 1, 2, 3], [4, 5, 6]]" by code_simp
  have k: "5 \<in> set (keys (nodes G1))" by code_simp
  show ?thesis
    using c k show_subgraphs_partitions_nodes[OF c] unfolding v returns_def by auto
qed

text \<open>
  Claim C2, at the graph with nodes \<open>0, 1, 2\<close> and edges \<open>0 \<rightarrow> 2\<close>, \<open>1 \<rightarrow> 2\<close>: the three nodes
  are one component of the undirected graph, and \<open>show_subgraphs\<close> returns the two groups
  \<open>[0, 2]\<close> and \<open>[1]\<close>, so that the stored edge from \<open>1\<close> to \<open>2\<close> joins two nodes that
  share no group. Node \<open>1\<close> is looked at before \<open>2\<close>, has no path to or from \<open>0\<close>,
  and gets a group of its own; node \<open>2\<close> then joins the first group that matches, and the
  two groups are never merged.
\<close>

theorem show_subgraphs_splits_component:
  "get_all_edges G_fan_in = [Edge 0 2, Edge 1 2] \<and>
   keys (nodes G_fan_in) = [0, 1, 2] \<and>
   show_subgraphs G_fan_in = returns [[0, 2], [1]] \<and>
   stored_edge G_fan_in 1 2 \<and>
   \<not> (\<exists>g \<in> set [[0, 2], [1 :: int]]. 1 \<in> set g \<and> 2 \<in> set g)"
  by code_simp

text \<open>
  Claim C4, at the graph with nodes \<open>0, 1, 2\<close> and edges \<open>2 \<rightarrow> 0\<close>, \<open>2 \<rightarrow> 1\<close>:
  \<open>path_exists 2 1\<close> returns a non-empty list, and \<open>show_subgraphs\<close> puts \<open>2\<close> and \<open>1\<close>
  into different groups.
\<close>

theorem show_subgraphs_separates_reachable:
  "path_exists G_fan_out 2 1 = returns (PyList [2]) \<and> truthy (PyList [2 :: int]) \<and>
   show_subgraphs G_fan_out = returns [[0, 2], [1]] \<and>
   \<not> (\<exists>g \<in> set [[0, 2], [1 :: int]]. 2 \<in> set g \<and> 1 \<in> set g)"
  by code_simp

end
